theory Spec2Isabelle
  imports Main "HOL-Library.Word"
begin

unbundle bit_operations_syntax

text \<open>
  The CADU tools of the repository, embedded function by function: the decoder of the
  1024-octet frames with its CCITT CRC-16, the gap tracker on the 24-bit sequence counter,
  the reader that reassembles HRDL packets from the CADU bodies, and the loop that checks
  and counts the packets. Byte slices are lists of 8-bit words, machine integers are
  words of their width, errors and panics are values, and every loop is a recursive
  function. The definitions come first, the proofs after them.
\<close>

section \<open>Data model\<close>

type_synonym byte = "8 word"
type_synonym bytes = "byte list"

text \<open>The Go struct \<open>ChecksumError\<close>: the CRC the frame carries and the CRC computed.\<close>

record ChecksumError =
  Want :: "16 word"
  Got :: "16 word"

text \<open>
  The Go struct \<open>Header\<close>. The field \<open>Word\<close> of the source is \<open>Word_h\<close> here and the
  field \<open>Control\<close> is \<open>Control_h\<close>, since \<open>Cadu\<close> has a \<open>Control\<close> of its own.
\<close>

record Header =
  Word_h :: "32 word"
  Version :: "8 word"
  Space :: "8 word"
  Channel :: "8 word"
  Sequence :: "32 word"
  Replay :: bool
  Control_h :: "16 word"
  Data :: "16 word"

text \<open>
  The Go struct \<open>Cadu\<close>: the embedded \<open>*Header\<close>, the payload, the trailing control
  word (the CRC of the frame) and the error stamped on it, \<open>None\<close> for \<open>nil\<close>.
\<close>

record Cadu =
  header :: Header
  Payload :: bytes
  Control :: "16 word"
  Error :: "ChecksumError option"

section \<open>Gap tracker\<close>

text \<open>
  \<open>Cadu.Missing\<close>: the receiver is \<open>c\<close>, the argument \<open>p\<close> is a pointer that may be
  \<open>nil\<close> (\<open>None\<close>). The method calls itself with the roles exchanged when the previous
  sequence is the larger one.
\<close>

function Missing :: "Cadu \<Rightarrow> Cadu option \<Rightarrow> 32 word" where
  "Missing c None = 0"
| "Missing c (Some p) =
     (if Sequence (header p) > Sequence (header c) then Missing p (Some c)
      else (let delta = (Sequence (header c) - Sequence (header p)) AND 0xFFFFFF
            in if delta > 1 then delta else 0))"
  by pat_completeness auto
termination
  by (relation "measure (\<lambda>(c, p). case p of None \<Rightarrow> 0
        | Some q \<Rightarrow> if Sequence (header q) > Sequence (header c) then 1 else 0)") auto

text \<open>
  The gap tracker in the words of the specification: 0 without a previous CADU; otherwise
  the pair is put in ascending order of sequence, the difference is masked to 24 bits and
  returned when it exceeds 1.
\<close>

definition missing_spec :: "32 word \<Rightarrow> 32 word option \<Rightarrow> 32 word" where
  "missing_spec current previous =
     (case previous of
        None \<Rightarrow> 0
      | Some prev \<Rightarrow>
          (let lo = (if prev > current then current else prev);
               hi = (if prev > current then prev else current);
               delta = (hi - lo) AND 0xFFFFFF
           in if delta > 1 then delta else 0))"

text \<open>A CADU that carries a given sequence counter and nothing else of interest.\<close>

definition cadu_seq :: "32 word \<Rightarrow> Cadu" where
  "cadu_seq s =
     \<lparr>header = \<lparr>Word_h = 0x1ACFFC1D, Version = 1, Space = 23, Channel = 7, Sequence = s,
                Replay = False, Control_h = 0, Data = 0\<rparr>,
      Payload = [], Control = 0, Error = None\<rparr>"

section \<open>HRDL sequence accounting\<close>

text \<open>\<open>sequenceDelta\<close>: two 32-bit counters, a 64-bit result.\<close>

definition sequenceDelta :: "32 word \<Rightarrow> 32 word \<Rightarrow> 64 word" where
  "sequenceDelta current lst =
     (if current = lst + 1 then 0
      else if current > lst then ucast current - ucast lst
      else 0)"

section \<open>CCITT CRC-16\<close>

definition CCITT :: "16 word" where
  "CCITT = 0xFFFF"

definition POLY :: "16 word" where
  "POLY = 0x1021"

text \<open>The inner loop \<open>for j := 0; j < 8; j++\<close> of both CRC routines.\<close>

function crc_bits :: "nat \<Rightarrow> 16 word \<Rightarrow> 16 word" where
  "crc_bits j s =
     (if j < 8
      then crc_bits (j + 1) (if (s AND 0x8000) > 0 then push_bit 1 s XOR POLY else push_bit 1 s)
      else s)"
  by pat_completeness auto
termination
  by (relation "measure (\<lambda>(j, s). 8 - j)") auto

declare crc_bits.simps [simp del]

text \<open>The state of the streaming accumulator \<open>ccittSum\<close> (its field \<open>sum\<close>).\<close>

record ccittSum =
  csum :: "16 word"

definition Sum :: ccittSum where
  "Sum = \<lparr>csum = CCITT\<rparr>"

text \<open>The loop \<open>for i := 0; i < len(bs); i++\<close> of \<open>ccittSum.Write\<close>, on the field.\<close>

function Write_loop :: "nat \<Rightarrow> bytes \<Rightarrow> 16 word \<Rightarrow> 16 word" where
  "Write_loop i bs s =
     (if i < length bs
      then Write_loop (i + 1) bs (crc_bits 0 (s XOR push_bit 8 (ucast (bs ! i))))
      else s)"
  by pat_completeness auto
termination
  by (relation "measure (\<lambda>(i, bs, s). length bs - i)") auto

declare Write_loop.simps [simp del]

text \<open>\<open>ccittSum.Write\<close> returns the updated accumulator and \<open>len(bs)\<close>; its error is always \<open>nil\<close>.\<close>

definition Write :: "ccittSum \<Rightarrow> bytes \<Rightarrow> ccittSum \<times> nat" where
  "Write c bs = (c\<lparr>csum := Write_loop 0 bs (csum c)\<rparr>, length bs)"

definition Sum32 :: "ccittSum \<Rightarrow> 32 word" where
  "Sum32 c = ucast (csum c)"

text \<open>The one-shot \<open>calculateCRC\<close>, with its own copy of the two loops.\<close>

function calculateCRC_loop :: "nat \<Rightarrow> bytes \<Rightarrow> 16 word \<Rightarrow> 16 word" where
  "calculateCRC_loop i bs crc =
     (if i < length bs
      then calculateCRC_loop (i + 1) bs (crc_bits 0 (crc XOR push_bit 8 (ucast (bs ! i))))
      else crc)"
  by pat_completeness auto
termination
  by (relation "measure (\<lambda>(i, bs, crc). length bs - i)") auto

declare calculateCRC_loop.simps [simp del]

definition calculateCRC :: "bytes \<Rightarrow> 16 word" where
  "calculateCRC bs = calculateCRC_loop 0 bs CCITT"

text \<open>
  The recurrence in the words of the specification: XOR the octet into the high byte,
  then eight times shift left, XOR-ing 0x1021 in when bit 15 was set.
\<close>

definition crc_spec_shift :: "16 word \<Rightarrow> 16 word" where
  "crc_spec_shift crc = (if bit crc 15 then push_bit 1 crc XOR 0x1021 else push_bit 1 crc)"

definition crc_spec_octet :: "16 word \<Rightarrow> byte \<Rightarrow> 16 word" where
  "crc_spec_octet crc octet = (crc_spec_shift ^^ 8) (crc XOR push_bit 8 (ucast octet))"

definition crc_spec :: "bytes \<Rightarrow> 16 word" where
  "crc_spec bs = foldl crc_spec_octet 0xFFFF bs"

text \<open>Feeding a list of chunks to the accumulator, one \<open>Write\<close> per chunk.\<close>

definition feed :: "ccittSum \<Rightarrow> bytes list \<Rightarrow> ccittSum" where
  "feed c chunks = foldl (\<lambda>acc chunk. fst (Write acc chunk)) c chunks"

section \<open>Errors and byte sources\<close>

text \<open>
  The errors the programs return, and \<open>Panic\<close> for the run-time panic of an index or a
  slice bound out of range.
\<close>

datatype error = EOF | ErrUnexpectedEOF | ErrSyncword | ErrMultiple | Panic

text \<open>
  A byte source (\<open>io.Reader\<close> over a file or a socket) is the list of the octets it still
  holds. \<open>io.ReadFull\<close> of \<open>n\<close> octets returns them, or fails with \<open>io.EOF\<close> when the
  source is empty and \<open>io.ErrUnexpectedEOF\<close> when it is shorter; a failed read has used
  up the source.
\<close>

definition read_error :: "bytes \<Rightarrow> error" where
  "read_error r = (if r = [] then EOF else ErrUnexpectedEOF)"

definition ReadFull :: "nat \<Rightarrow> bytes \<Rightarrow> bytes option \<times> bytes" where
  "ReadFull n r = (if n \<le> length r then (Some (take n r), drop n r) else (None, []))"

text \<open>\<open>binary.BigEndian\<close> and \<open>binary.LittleEndian\<close> on a buffer of the right length.\<close>

definition BigEndian_Uint16 :: "bytes \<Rightarrow> 16 word" where
  "BigEndian_Uint16 b = ucast (b ! 1) OR push_bit 8 (ucast (b ! 0))"

definition BigEndian_Uint32 :: "bytes \<Rightarrow> 32 word" where
  "BigEndian_Uint32 b =
     ucast (b ! 3) OR push_bit 8 (ucast (b ! 2)) OR push_bit 16 (ucast (b ! 1))
       OR push_bit 24 (ucast (b ! 0))"

definition LittleEndian_Uint32 :: "bytes \<Rightarrow> 32 word" where
  "LittleEndian_Uint32 b =
     ucast (b ! 0) OR push_bit 8 (ucast (b ! 1)) OR push_bit 16 (ucast (b ! 2))
       OR push_bit 24 (ucast (b ! 3))"

section \<open>CADU decoder\<close>

definition caduHeaderLen :: nat where "caduHeaderLen = 14"
definition caduCheckLen :: nat where "caduCheckLen = 2"
definition caduPacketLen :: nat where "caduPacketLen = 1024"
definition caduBodyLen :: nat where "caduBodyLen = caduPacketLen - caduHeaderLen - caduCheckLen"

text \<open>
  A read through \<open>io.TeeReader(r, sum)\<close>: whatever the source delivers, also of a read that
  falls short, is written to the accumulator.
\<close>

definition tee_Read :: "nat \<Rightarrow> bytes \<times> ccittSum \<Rightarrow> bytes option \<times> (bytes \<times> ccittSum)" where
  "tee_Read n rs =
     (case rs of (r, acc) \<Rightarrow>
        (if n \<le> length r then (Some (take n r), (drop n r, fst (Write acc (take n r))))
         else (None, ([], fst (Write acc r)))))"

text \<open>
  \<open>decodeCadu\<close> on the source \<open>r0\<close>; it returns the CADU and the source that is left. Only
  the first read and the read of the payload are checked; a \<open>binary.Read\<close> whose error is
  dropped leaves its variable at zero.
\<close>

definition decodeCadu :: "bytes \<Rightarrow> error + (Cadu \<times> bytes)" where
  "decodeCadu r0 =
     (case ReadFull 4 r0 of
        (None, _) \<Rightarrow> Inl (read_error r0)
      | (Some w, r1) \<Rightarrow>
          (let (pidb, s2) = tee_Read 2 (r1, Sum);
               pid = (case pidb of None \<Rightarrow> 0 | Some b \<Rightarrow> BigEndian_Uint16 b);
               (seqb, s3) = tee_Read 4 s2;
               seq = (case seqb of None \<Rightarrow> 0 | Some b \<Rightarrow> BigEndian_Uint32 b);
               (ctlb, s4) = tee_Read 2 s3;
               (datb, s5) = tee_Read 2 s4;
               h = \<lparr>Word_h = BigEndian_Uint32 w,
                    Version = ucast (drop_bit 14 (pid AND 0xC000)),
                    Space = ucast (drop_bit 6 (pid AND 0x3FC0)),
                    Channel = ucast (pid AND 0x003F),
                    Sequence = drop_bit 8 seq,
                    Replay = (drop_bit 7 seq = 1),
                    Control_h = (case ctlb of None \<Rightarrow> 0 | Some b \<Rightarrow> BigEndian_Uint16 b),
                    Data = (case datb of None \<Rightarrow> 0 | Some b \<Rightarrow> BigEndian_Uint16 b)\<rparr>;
               (payb, s6) = tee_Read caduBodyLen s5
           in case payb of
                None \<Rightarrow> Inl (read_error (fst s5))
              | Some payload \<Rightarrow>
                  (let (chk, r7) = ReadFull 2 (fst s6);
                       control = (case chk of None \<Rightarrow> 0 | Some b \<Rightarrow> BigEndian_Uint16 b);
                       s = Sum32 (snd s6)
                   in Inr (\<lparr>header = h, Payload = payload, Control = control,
                            Error = (if ucast s \<noteq> control
                                     then Some \<lparr>Want = control, Got = ucast s\<rparr> else None)\<rparr>,
                           r7))))"

section \<open>Byte-slice helpers\<close>

text \<open>
  \<open>bytes.Index(s, sep)\<close>: the index of the first instance of \<open>sep\<close> in \<open>s\<close>, \<open>None\<close> for
  the \<open>-1\<close> of the source.
\<close>

fun Index :: "bytes \<Rightarrow> bytes \<Rightarrow> nat option" where
  "Index [] sep = (if sep = [] then Some 0 else None)"
| "Index (x # s) sep =
     (if take (length sep) (x # s) = sep then Some 0 else map_option Suc (Index s sep))"

text \<open>
  \<open>bytes.Replace(s, old, new, -1)\<close> for a non-empty \<open>old\<close>, as at both call sites: every
  non-overlapping instance, from the left, is replaced.
\<close>

function Replace :: "bytes \<Rightarrow> bytes \<Rightarrow> bytes \<Rightarrow> bytes" where
  "Replace [] old new = []"
| "Replace (x # s) old new =
     (if old \<noteq> [] \<and> take (length old) (x # s) = old
      then new @ Replace (drop (length old) (x # s)) old new
      else x # Replace s old new)"
  by pat_completeness auto
termination
  by (relation "measure (\<lambda>(s, old, new). length s)") (auto simp: neq_Nil_conv)

text \<open>
  The built-in \<open>copy(dst, src)\<close>: the number of octets copied and the destination
  afterwards.
\<close>

definition copy :: "bytes \<Rightarrow> bytes \<Rightarrow> nat \<times> bytes" where
  "copy dst src = (min (length dst) (length src), take (length dst) src @ drop (length src) dst)"

section \<open>Reassembler\<close>

definition Word :: bytes where
  "Word = [0xf8, 0x2e, 0x35, 0x53]"

definition Stuff :: bytes where
  "Stuff = [0xf8, 0x2e, 0x35, 0xaa]"

definition defaultOffset :: nat where
  "defaultOffset = caduBodyLen + 4"

text \<open>
  The Go struct \<open>reader\<close>: \<open>inner\<close> is the source of CADUs that is left, \<open>rest\<close> the
  contents of the buffer of retained octets.
\<close>

record reader =
  inner :: bytes
  rest :: bytes
  skip :: nat

definition NewReader :: "bytes \<Rightarrow> bool \<Rightarrow> reader" where
  "NewReader r hrdfe = \<lparr>inner = r, rest = [], skip = (if hrdfe then 8 else 0)\<rparr>"

text \<open>\<open>reader.readCadu\<close>: one CADU off the source, and its body.\<close>

definition readCadu :: "reader \<Rightarrow> (error \<times> reader) + (bytes \<times> reader)" where
  "readCadu r =
     (case ReadFull (caduPacketLen + skip r) (inner r) of
        (None, src) \<Rightarrow> Inl (read_error (inner r), r\<lparr>inner := src\<rparr>)
      | (Some vs, src) \<Rightarrow>
          Inr (take (skip r + caduPacketLen - caduCheckLen - (skip r + caduHeaderLen))
                 (drop (skip r + caduHeaderLen) vs),
               r\<lparr>inner := src\<rparr>))"

text \<open>
  Where \<open>copyHRDL\<close> starts to look for the next sync word: \<open>len(xs) - defaultOffset\<close>,
  or \<open>len(Word)\<close> when that is not positive.
\<close>

definition search_offset :: "bytes \<Rightarrow> nat" where
  "search_offset xs =
     (let offset = int (length xs) - int defaultOffset
      in if offset \<le> 0 then length Word else nat offset)"

text \<open>
  \<open>reader.copyHRDL\<close> returns the count, the caller's buffer \<open>bs\<close> with the slice copied
  into it, and the reader with the retained octets written to \<open>rest\<close>. The \<open>int\<close> of the
  source has 64 bits, so \<open>size + 12\<close> does not wrap.
\<close>

definition copyHRDL :: "reader \<Rightarrow> bytes \<Rightarrow> bytes \<Rightarrow> nat \<times> bytes \<times> reader" where
  "copyHRDL r xs bs =
     (if length xs < 8 \<or> take (length Word) xs \<noteq> Word then (0, bs, r)
      else
        (let offset = search_offset xs
         in case Index (drop offset xs) Word of
              None \<Rightarrow> (0, bs, r)
            | Some ix \<Rightarrow>
                (let z = ix + offset;
                     s = unat (LittleEndian_Uint32 (drop (length Word) xs)) + 12;
                     s = (if s > z then z else s);
                     (n, bs') = copy bs (take s xs)
                 in (n, bs', r\<lparr>rest := rest r @ drop z xs\<rparr>))))"

text \<open>The first loop of \<open>reader.Read\<close>: CADUs are appended until a sync word shows.\<close>

function Read_sync :: "reader \<Rightarrow> bytes \<Rightarrow> (error \<times> reader) + (bytes \<times> reader)" where
  "Read_sync r xs =
     (case readCadu r of
        Inl e \<Rightarrow> Inl e
      | Inr (vs, r') \<Rightarrow>
          (let xs' = xs @ vs
           in case Index xs' Word of
                Some ix \<Rightarrow> Inr (Replace (drop ix xs') Stuff (take 3 Word), r')
              | None \<Rightarrow> Read_sync r' xs'))"
  by pat_completeness auto
termination
  by (relation "measure (\<lambda>(r, xs). length (inner r))")
     (auto simp: readCadu_def ReadFull_def caduPacketLen_def split: if_splits)

declare Read_sync.simps [simp del]

text \<open>
  The window of the second loop: after a CADU body is appended, the last
  \<open>caduPacketLen\<close> octets are overwritten with their unstuffed copy.
\<close>

definition unstuff_window :: "bytes \<Rightarrow> bytes" where
  "unstuff_window xs =
     (let offset = (if int (length xs) - int caduPacketLen < 0 then 0
                    else length xs - caduPacketLen)
      in take offset xs
           @ snd (copy (drop offset xs) (Replace (drop offset xs) Stuff (take 3 Word))))"

text \<open>The second loop of \<open>reader.Read\<close>: emit a packet, or append one more CADU.\<close>

function Read_emit :: "reader \<Rightarrow> bytes \<Rightarrow> bytes \<Rightarrow> (error \<times> reader) + (nat \<times> bytes \<times> reader)" where
  "Read_emit r xs bs =
     (case copyHRDL r xs bs of
        (n, bs', r') \<Rightarrow>
          (if n > 0 then Inr (n, bs', r')
           else case readCadu r' of
                  Inl e \<Rightarrow> Inl e
                | Inr (vs, r'') \<Rightarrow> Read_emit r'' (unstuff_window (xs @ vs)) bs'))"
  by pat_completeness auto
termination
  by (relation "measure (\<lambda>(r, xs, bs). length (inner r))")
     (auto simp: readCadu_def ReadFull_def copyHRDL_def caduPacketLen_def Let_def
           split: if_splits option.splits prod.splits)

declare Read_emit.simps [simp del]

text \<open>
  \<open>reader.Read\<close>: the retained octets are taken out of \<open>rest\<close>; a packet is emitted from
  them if they hold one, otherwise the two loops run. \<open>Inl\<close> is the return \<open>0, err\<close>. The
  first statement, \<open>make([]byte, r.rest.Len(), len(bs))\<close>, panics when the retained octets
  outnumber the capacity \<open>len(bs)\<close>.
\<close>

definition Read :: "reader \<Rightarrow> bytes \<Rightarrow> (error \<times> reader) + (nat \<times> bytes \<times> reader)" where
  "Read r bs =
     (let xs = rest r
      in if length bs < length xs then Inl (Panic, r)
         else
           (case copyHRDL (r\<lparr>rest := []\<rparr>) xs bs of
              (n, bs', r') \<Rightarrow>
                (if n > 0 then Inr (n, bs', r')
                 else case Read_sync r' xs of
                        Inl e \<Rightarrow> Inl e
                      | Inr (xs', r'') \<Rightarrow> Read_emit r'' xs' bs')))"

section \<open>Packet accounting\<close>

text \<open>
  The Go structs \<open>Coze\<close> and \<open>Counter\<close>. The fields \<open>Count\<close>, \<open>Size\<close> and \<open>Missing\<close> of
  \<open>Counter\<close> are \<open>Count_c\<close>, \<open>Size_c\<close> and \<open>Missing_c\<close> here. The \<open>int\<close> counters of
  \<open>Coze\<close> are \<open>int\<close>: nothing below depends on their width.
\<close>

record Coze =
  Count :: int
  Size :: int
  Bad :: int
  Bigger :: int
  Smaller :: int

record Counter =
  Count_c :: "64 word"
  Size_c :: "64 word"
  Missing_c :: "64 word"
  First :: "32 word"
  Last :: "32 word"

type_synonym status = "16 word \<rightharpoonup> Coze"
type_synonym reports = "16 word \<rightharpoonup> Counter"

text \<open>
  The selector \<open>byFunc\<close>: the key of a packet and the offset of its sequence counter. The
  two selectors of \<open>main\<close> index the packet, which panics when the packet is too short.
\<close>

type_synonym byFunc = "bytes \<Rightarrow> error + (16 word \<times> nat)"

definition by_channel :: byFunc where
  "by_channel vs = (if 8 < length vs then Inr (ucast (vs ! 8), 12) else Inl Panic)"


text \<open>The checksum loop \<open>for i := 8; i < len(vs)-4; i++\<close> of \<open>reassemble\<close>.\<close>

function sum_loop :: "nat \<Rightarrow> bytes \<Rightarrow> 32 word \<Rightarrow> 32 word" where
  "sum_loop i vs acc =
     (if int i < int (length vs) - 4 then sum_loop (i + 1) vs (acc + ucast (vs ! i)) else acc)"
  by pat_completeness auto
termination
  by (relation "measure (\<lambda>(i, vs, acc). length vs - i)") auto

declare sum_loop.simps [simp del]

text \<open>
  The body of the loop of \<open>reassemble\<close>, after \<open>Read\<close> has put \<open>n\<close> octets into the buffer
  \<open>xs\<close>: the two checks of the slice \<open>vs = xs[:n]\<close>, then the accounting. The slice
  expression \<open>vs[:len(Word)]\<close> reaches into the capacity of \<open>vs\<close>, which is that of \<open>xs\<close>.
  The hook only prints and is left out.
\<close>

definition reassemble_body ::
  "byFunc \<Rightarrow> status \<times> reports \<Rightarrow> bytes \<Rightarrow> nat \<Rightarrow> error + (status \<times> reports)" where
  "reassemble_body by st xs n =
     (let vs = take n xs
      in if length xs < length Word then Inl Panic
         else if take (length Word) xs \<noteq> Word then Inl ErrSyncword
         else if (case Index vs Word of None \<Rightarrow> False | Some i \<Rightarrow> i \<ge> length Word)
           then Inl ErrMultiple
         else
           (case by vs of
              Inl e \<Rightarrow> Inl e
            | Inr (k, six) \<Rightarrow>
                (let c = (case fst st k of
                            None \<Rightarrow> \<lparr>Count = 0, Size = 0, Bad = 0, Bigger = 0, Smaller = 0\<rparr>
                          | Some c \<Rightarrow> c);
                     c = c\<lparr>Count := Count c + 1, Size := Size c + int n\<rparr>;
                     sum = sum_loop 8 vs 0
                 in if length vs < 8 then Inl Panic
                    else
                      (let c = (if sum \<noteq> LittleEndian_Uint32 (drop (length vs - 4) vs)
                                then c\<lparr>Bad := Bad c + 1\<rparr> else c);
                           z = LittleEndian_Uint32 (drop 4 vs);
                           m = int (length vs) - 12;
                           c = (if int (unat z) > m then c\<lparr>Smaller := Smaller c + 1\<rparr>
                                else if int (unat z) < m then c\<lparr>Bigger := Bigger c + 1\<rparr>
                                else c);
                           status' = (fst st)(k \<mapsto> c)
                       in if length vs < six + 4 then Inl Panic
                          else
                            (let seq = LittleEndian_Uint32 (drop six vs);
                                 v = (case snd st k of
                                        None \<Rightarrow> \<lparr>Count_c = 0, Size_c = 0, Missing_c = 0,
                                                  First = seq, Last = seq\<rparr>
                                      | Some v \<Rightarrow>
                                          v\<lparr>Missing_c := Missing_c v + sequenceDelta seq (Last v),
                                            Last := seq\<rparr>);
                                 v = v\<lparr>Count_c := Count_c v + 1\<rparr>
                             in Inr (status', (snd st)(k \<mapsto> v)))))))"

text \<open>
  The loop \<open>for i := 1; ; i++\<close> of \<open>reassemble\<close> over the reader that \<open>NewReader\<close> has
  built. \<open>Read\<close> returns \<open>0, err\<close> or \<open>n, nil\<close>: an error other than \<open>io.EOF\<close> is returned,
  \<open>io.EOF\<close> or a count of 0 ends the loop, and otherwise the body runs on the buffer. Each
  \<open>Read\<close> that emits a slice uses up a CADU of the source or shortens the retained octets,
  so the loop ends.
\<close>

function reassemble_loop ::
  "byFunc \<Rightarrow> reader \<Rightarrow> bytes \<Rightarrow> status \<times> reports \<Rightarrow> error + status \<times> reports" where
  "reassemble_loop by rs xs st =
     (case Read rs xs of
        Inl (err, rs') \<Rightarrow> (if err \<noteq> EOF then Inl err else Inr st)
      | Inr (n, xs', rs') \<Rightarrow>
          (if n = 0 then Inr st
           else (case reassemble_body by st xs' n of
                   Inl e \<Rightarrow> Inl e
                 | Inr st' \<Rightarrow> reassemble_loop by rs' xs' st')))"
  by pat_completeness auto
termination
proof -
  have cadu: "length (inner r') < length (inner r)"
    if "readCadu r = Inr (vs, r')" for r vs r'
    using that
    by (auto simp: readCadu_def ReadFull_def caduPacketLen_def split: if_splits)
  have sync: "Read_sync r xs = Inr (xs', r') \<Longrightarrow> length (inner r') < length (inner r)"
    for r xs xs' r'
  proof (induction r xs rule: Read_sync.induct)
    case (1 r xs)
    from "1.prems" obtain vs r1 where rc: "readCadu r = Inr (vs, r1)"
      by (auto simp: Read_sync.simps [of r xs] split: sum.splits)
    show ?case
    proof (cases "Index (xs @ vs) Word")
      case (Some ix)
      with rc "1.prems" have "r' = r1"
        by (simp add: Read_sync.simps [of r xs] Let_def)
      with cadu [OF rc] show ?thesis by simp
    next
      case None
      with rc "1.prems" have "Read_sync r1 (xs @ vs) = Inr (xs', r')"
        by (simp add: Read_sync.simps [of r xs] Let_def)
      from "1.IH" [OF rc refl refl None this] cadu [OF rc] show ?thesis by simp
    qed
  qed
  have keep: "inner r' = inner r" if "copyHRDL r xs bs = (n, bs', r')" for r xs bs n bs' r'
    using that
    by (auto simp: copyHRDL_def Let_def split: if_splits option.splits prod.splits)
  have emit: "Read_emit r xs bs = Inr (n, bs', r') \<Longrightarrow> length (inner r') \<le> length (inner r)"
    for r xs bs n bs' r'
  proof (induction r xs bs rule: Read_emit.induct)
    case (1 r xs bs)
    obtain m bs1 r1 where c: "copyHRDL r xs bs = (m, bs1, r1)"
      by (cases "copyHRDL r xs bs") auto
    show ?case
    proof (cases "0 < m")
      case True
      with c "1.prems" have "r' = r1" by (simp add: Read_emit.simps [of r xs bs])
      with keep [OF c] show ?thesis by simp
    next
      case False
      with c "1.prems" obtain vs r2 where rc: "readCadu r1 = Inr (vs, r2)"
        and re: "Read_emit r2 (unstuff_window (xs @ vs)) bs1 = Inr (n, bs', r')"
        by (auto simp: Read_emit.simps [of r xs bs] split: sum.splits)
      from "1.IH" [OF c [symmetric] refl False rc refl re] cadu [OF rc] keep [OF c]
      show ?thesis by simp
    qed
  qed
  have retained: "length (rest r') < length (rest r) + length xs"
    if "copyHRDL r xs bs = (n, bs', r')" and "0 < n" for r xs bs n bs' r'
    using that
    by (auto simp: copyHRDL_def search_offset_def Let_def Word_def
          split: if_splits option.splits prod.splits)
  have dec: "length (inner r') < length (inner r)
             \<or> length (inner r') = length (inner r) \<and> length (rest r') < length (rest r)"
    if rd: "Read r bs = Inr (n, bs', r')" for r bs n bs' r'
  proof -
    obtain m bs1 r1 where c: "copyHRDL (r\<lparr>rest := []\<rparr>) (rest r) bs = (m, bs1, r1)"
      by (cases "copyHRDL (r\<lparr>rest := []\<rparr>) (rest r) bs") auto
    from rd have nb: "\<not> length bs < length (rest r)"
      by (auto simp: Read_def Let_def split: if_splits)
    show ?thesis
    proof (cases "0 < m")
      case True
      with c rd nb have "r' = r1" by (simp add: Read_def Let_def)
      with keep [OF c] retained [OF c True] show ?thesis by simp
    next
      case False
      with c rd nb obtain xs' r2 where s: "Read_sync r1 (rest r) = Inr (xs', r2)"
        and e: "Read_emit r2 xs' bs1 = Inr (n, bs', r')"
        by (auto simp: Read_def Let_def split: sum.splits)
      from sync [OF s] emit [OF e] keep [OF c] show ?thesis by simp
    qed
  qed
  show ?thesis
    by (relation "measures [\<lambda>(by, rs, xs, st). length (inner rs),
                            \<lambda>(by, rs, xs, st). length (rest rs)]")
       (auto dest!: dec)
qed

declare reassemble_loop.simps [simp del]

text \<open>
  \<open>reassemble\<close>: the reader over the source, empty maps, a buffer of \<open>8 << 20\<close> octets,
  and the loop. \<open>Inl e\<close> is the return \<open>nil, nil, err\<close>.
\<close>

definition reassemble_buffer :: bytes where
  "reassemble_buffer = replicate 8388608 0"

definition reassemble :: "bytes \<Rightarrow> bool \<Rightarrow> byFunc \<Rightarrow> error + status \<times> reports" where
  "reassemble r hrdfe by =
     reassemble_loop by (NewReader r hrdfe) reassemble_buffer (Map.empty, Map.empty)"

section \<open>Sample streams\<close>

text \<open>
  The first fourteen octets of a CADU as the traffic generator of the repository builds
  them: sync word, version 1, spacecraft 23, channel 7, sequence 0, control and pointer.
\<close>

definition sample_header :: bytes where
  "sample_header = [0x1a, 0xcf, 0xfc, 0x1d, 0x45, 0xc7, 0, 0, 0, 0, 0xfd, 0xc3, 0x3f, 0xff]"

text \<open>One CADU whose body starts with two HRDL sync words back to back.\<close>

definition stream_twin_sync :: bytes where
  "stream_twin_sync = sample_header @ Word @ Word @ replicate 1000 0 @ [0, 0]"

text \<open>
  One CADU whose body holds a whole HRDL packet of declared size 4 (16 octets on the
  wire) followed by the sync word of the next packet.
\<close>

definition stream_short_packet :: bytes where
  "stream_short_packet =
     sample_header @ Word @ [4, 0, 0, 0] @ [0, 0, 0, 0, 0, 0, 0, 0] @ Word
       @ replicate 988 0 @ [0, 0]"

text \<open>
  A retained buffer that opens with a packet of declared size 0 (12 octets on the wire),
  followed by two stray octets and the sync word of the next packet.
\<close>

definition sample_gap_buffer :: bytes where
  "sample_gap_buffer = Word @ [0, 0, 0, 0] @ [1, 2, 3, 4] @ [9, 9] @ Word"

text \<open>
  Three CADUs of 1024 octets. In the first, the two payload octets D2 A4 bring the CRC of
  the header to zero and the rest of the payload is zero, so that the CRC of the frame is
  0000, which is what the frame carries. The second carries 0001 instead. The third has
  the sequence-and-replay word 00 00 01 80: sequence 1, bit 7 set.
\<close>

definition frame_valid_crc :: bytes where
  "frame_valid_crc = sample_header @ [0xd2, 0xa4] @ replicate 1006 0 @ [0, 0]"

definition frame_wrong_crc :: bytes where
  "frame_wrong_crc = sample_header @ [0xd2, 0xa4] @ replicate 1006 0 @ [0, 1]"

definition frame_replay_seq1 :: bytes where
  "frame_replay_seq1 =
     [0x1a, 0xcf, 0xfc, 0x1d, 0x45, 0xc7, 0x00, 0x00, 0x01, 0x80, 0xfd, 0xc3, 0x3f, 0xff]
       @ replicate 1008 0 @ [0, 0]"

text \<open>
  A stream of three CADUs. The first body opens an HRDL packet of declared size 1999
  (2011 octets on the wire). The second body carries on with the stuffed sequence
  F8 2E 35 AA, which stands for the payload octets F8 2E 35, and ends with the sync word
  of the next packet. The third body holds the rest of that packet, of declared size 4,
  and one more sync word. Unstuffed, the second packet is F8 2E 35 53, 04 00 00 00 and
  eight zero octets.
\<close>

definition stuffed_body1 :: bytes where
  "stuffed_body1 = Word @ [0xcf, 0x07, 0, 0] @ replicate 1000 0"

definition stuffed_body2 :: bytes where
  "stuffed_body2 = Stuff @ replicate 1000 0 @ Word"

definition stuffed_body3 :: bytes where
  "stuffed_body3 = [4, 0, 0, 0] @ [0, 0, 0, 0, 0, 0, 0, 0] @ Word @ replicate 992 0"

definition stuffed_cadu2 :: bytes where
  "stuffed_cadu2 =
     [0x1a, 0xcf, 0xfc, 0x1d, 0x45, 0xc7, 0, 0, 1, 0, 0xfd, 0xc3, 0x3f, 0xff]
       @ stuffed_body2 @ [0, 0]"

definition stuffed_cadu3 :: bytes where
  "stuffed_cadu3 =
     [0x1a, 0xcf, 0xfc, 0x1d, 0x45, 0xc7, 0, 0, 2, 0, 0xfd, 0xc3, 0x3f, 0xff]
       @ stuffed_body3 @ [0, 0]"

definition stream_stuffed :: bytes where
  "stream_stuffed = (sample_header @ stuffed_body1 @ [0, 0]) @ stuffed_cadu2 @ stuffed_cadu3"

text \<open>The buffer of \<open>reassemble\<close> after the first and after the second \<open>Read\<close> of that stream.\<close>

definition stuffed_out1 :: bytes where
  "stuffed_out1 = stuffed_body1 @ [0xf8, 0x2e, 0x35] @ replicate 1000 0 @ replicate 8386597 0"

definition stuffed_out2 :: bytes where
  "stuffed_out2 =
     (Word @ [0x53, 4, 0, 0, 0] @ [0, 0, 0, 0, 0, 0, 0, 0]) @ replicate 991 0
       @ [0xf8, 0x2e, 0x35] @ replicate 1000 0 @ replicate 8386597 0"









section \<open>Gap tracker: proofs\<close>

text \<open>
  C2. \<open>Missing\<close> is 0 without a previous CADU and otherwise the masked difference of the
  pair ordered by sequence, returned when it exceeds 1: the method computes exactly what
  the specification's description computes on the two sequence counters.
\<close>

theorem Missing_refines_spec:
  "Missing c p = missing_spec (Sequence (header c)) (map_option (\<lambda>q. Sequence (header q)) p)"
proof (induction c p rule: Missing.induct)
  case (1 c)
  show ?case by (simp add: missing_spec_def)
next
  case (2 c p)
  show ?case
  proof (cases "Sequence (header p) > Sequence (header c)")
    case True
    then have "\<not> Sequence (header c) > Sequence (header p)" by simp
    with True 2 show ?thesis by (simp add: missing_spec_def Let_def)
  next
    case False
    then show ?thesis by (simp add: missing_spec_def Let_def)
  qed
qed

text \<open>
  Where no wrap lies between the two: the gap of \<open>k\<close> is what \<open>Missing\<close> returns.
\<close>

lemma Missing_no_wrap:
  assumes k: "2 \<le> k" and nw: "unat (Sequence (header p)) + k < 2 ^ 24"
    and c: "Sequence (header c) = Sequence (header p) + of_nat k"
  shows "Missing c (Some p) = of_nat k"
proof -
  let ?p = "Sequence (header p)"
  have mask24: "(0xFFFFFF :: 32 word) = mask 24" by (simp add: mask_eq_decr_exp)
  from nw have kl: "k < 2 ^ 24" by simp
  then have uk: "unat (of_nat k :: 32 word) = k" by (simp add: unat_of_nat)
  from nw uk have "unat ?p + unat (of_nat k :: 32 word) < 2 ^ LENGTH(32)" by simp
  then have uc: "unat (?p + of_nat k) = unat ?p + k"
    using uk by (simp add: unat_add_lem [THEN iffD1])
  then have le: "\<not> ?p > Sequence (header c)" by (simp add: c word_less_nat_alt)
  have d: "Sequence (header c) - ?p = of_nat k" by (simp add: c)
  have "(of_nat k :: 32 word) < 2 ^ 24" using kl uk by (simp add: word_less_nat_alt)
  then have m: "(of_nat k :: 32 word) AND 0xFFFFFF = of_nat k"
    unfolding mask24 by (rule less_mask_eq)
  have g: "(of_nat k :: 32 word) > 1" using k uk by (simp add: word_less_nat_alt)
  from le d m g show ?thesis by (simp add: Let_def)
qed

text \<open>
  Where the previous sequence is the larger one, as it is across a wrap, the difference
  is taken the other way round and the mask has nothing to reduce.
\<close>

lemma Missing_previous_larger:
  assumes "Sequence (header p) > Sequence (header c)"
  shows "Missing c (Some p) =
     (let delta = (Sequence (header p) - Sequence (header c)) AND 0xFFFFFF
      in if delta > 1 then delta else 0)"
proof -
  from assms have "\<not> Sequence (header c) > Sequence (header p)" by simp
  with assms show ?thesis by simp
qed

text \<open>
  C1. At the wrap named by the specification, previous sequence 0xFFFFFE and current
  sequence 0x000001 (three steps apart modulo 2^24), \<open>Missing\<close> exchanges the pair first
  and returns 0xFFFFFD = 16777213, not 3.
\<close>

theorem Missing_wrap_value:
  "Missing (cadu_seq 0x000001) (Some (cadu_seq 0xFFFFFE)) = 0xFFFFFD"
  by (simp add: cadu_seq_def)

section \<open>HRDL sequence accounting: proofs\<close>

lemma unat_ucast_32_64: "unat (ucast (w :: 32 word) :: 64 word) = unat w"
proof -
  have "unat w < 2 ^ 32" using unsigned_less [of w, where 'a = nat] by simp
  then have "unat w < 2 ^ 64" by simp
  then show ?thesis by (simp add: unsigned_ucast_eq take_bit_nat_eq_self)
qed

text \<open>
  C8. \<open>sequenceDelta\<close> is 0 when \<open>current\<close> is \<open>last + 1\<close> in 32-bit arithmetic;
  otherwise it is the difference \<open>current - last\<close>, as a number and without wrapping, when
  \<open>current\<close> is above \<open>last\<close>; and it is 0 in every other case.
\<close>

theorem sequenceDelta_cases:
  "(current = lst + 1 \<longrightarrow> sequenceDelta current lst = 0) \<and>
   (current \<noteq> lst + 1 \<and> current > lst \<longrightarrow>
      unat (sequenceDelta current lst) = unat current - unat lst) \<and>
   (current \<noteq> lst + 1 \<and> \<not> current > lst \<longrightarrow> sequenceDelta current lst = 0)"
proof (intro conjI impI)
  assume a: "current \<noteq> lst + 1 \<and> current > lst"
  then have "(ucast lst :: 64 word) \<le> ucast current"
    by (simp add: word_le_nat_alt word_less_nat_alt unat_ucast_32_64)
  then have "unat (ucast current - ucast lst :: 64 word) = unat current - unat lst"
    by (simp add: unat_sub unat_ucast_32_64)
  with a show "unat (sequenceDelta current lst) = unat current - unat lst"
    by (simp add: sequenceDelta_def)
qed (simp_all add: sequenceDelta_def)

theorem sequenceDelta_cases_witness:
  "sequenceDelta 6 5 = 0 \<and> sequenceDelta 0 0xFFFFFFFF = 0 \<and>
   unat (sequenceDelta 9 5) = 4 \<and> sequenceDelta 3 5 = 0"
  using sequenceDelta_cases [of 6 5] sequenceDelta_cases [of 0 "0xFFFFFFFF"]
    sequenceDelta_cases [of 9 5] sequenceDelta_cases [of 3 5]
  by simp

section \<open>CCITT CRC-16: proofs\<close>

lemma top_bit_test: "((s :: 16 word) AND 0x8000 > 0) = bit s 15"
proof -
  have e: "(0x8000 :: 16 word) = 2 ^ 15" by simp
  have "(s AND 2 ^ 15 = 0) = (\<not> bit s 15)" by (rule and_exp_eq_0_iff_not_bit)
  then show ?thesis unfolding e word_gt_0 by metis
qed

lemma shift_step_eq:
  "(if ((s :: 16 word) AND 0x8000) > 0 then push_bit 1 s XOR POLY else push_bit 1 s)
     = crc_spec_shift s"
  unfolding top_bit_test crc_spec_shift_def POLY_def by (rule refl)

lemma crc_bits_funpow: "crc_bits j s = (crc_spec_shift ^^ (8 - j)) s"
proof (induction j s rule: crc_bits.induct)
  case (1 j s)
  show ?case
  proof (cases "j < 8")
    case True
    from True have e: "8 - j = Suc (8 - (j + 1))" by simp
    have "crc_bits j s = crc_bits (j + 1) (crc_spec_shift s)"
      by (subst crc_bits.simps) (simp only: True if_True shift_step_eq)
    also have "\<dots> = (crc_spec_shift ^^ (8 - (j + 1))) (crc_spec_shift s)"
      using 1 [OF True] by (simp only: shift_step_eq)
    finally show ?thesis by (simp only: e funpow_Suc_right o_apply)
  next
    case False
    then show ?thesis by (subst crc_bits.simps) simp
  qed
qed

lemma crc_bits_octet: "crc_bits 0 (s XOR push_bit 8 (ucast b)) = crc_spec_octet s b"
  by (simp only: crc_bits_funpow crc_spec_octet_def diff_zero)

lemma Write_loop_foldl: "Write_loop i bs s = foldl crc_spec_octet s (drop i bs)"
proof (induction i bs s rule: Write_loop.induct)
  case (1 i bs s)
  show ?case
  proof (cases "i < length bs")
    case True
    then have d: "drop i bs = bs ! i # drop (i + 1) bs" by (simp add: Cons_nth_drop_Suc)
    have "Write_loop i bs s = Write_loop (i + 1) bs (crc_spec_octet s (bs ! i))"
      by (subst Write_loop.simps) (simp only: True if_True crc_bits_octet)
    also have "\<dots> = foldl crc_spec_octet (crc_spec_octet s (bs ! i)) (drop (i + 1) bs)"
      using 1 [OF True] by (simp only: crc_bits_octet)
    finally show ?thesis by (simp only: d foldl_Cons)
  next
    case False
    then show ?thesis by (subst Write_loop.simps) simp
  qed
qed

lemma calculateCRC_loop_foldl:
  "calculateCRC_loop i bs s = foldl crc_spec_octet s (drop i bs)"
proof (induction i bs s rule: calculateCRC_loop.induct)
  case (1 i bs s)
  show ?case
  proof (cases "i < length bs")
    case True
    then have d: "drop i bs = bs ! i # drop (i + 1) bs" by (simp add: Cons_nth_drop_Suc)
    have "calculateCRC_loop i bs s = calculateCRC_loop (i + 1) bs (crc_spec_octet s (bs ! i))"
      by (subst calculateCRC_loop.simps) (simp only: True if_True crc_bits_octet)
    also have "\<dots> = foldl crc_spec_octet (crc_spec_octet s (bs ! i)) (drop (i + 1) bs)"
      using 1 [OF True] by (simp only: crc_bits_octet)
    finally show ?thesis by (simp only: d foldl_Cons)
  next
    case False
    then show ?thesis by (subst calculateCRC_loop.simps) simp
  qed
qed

lemma feed_foldl: "csum (feed c chunks) = foldl crc_spec_octet (csum c) (concat chunks)"
  unfolding feed_def
  by (induction chunks arbitrary: c) (simp_all add: Write_def Write_loop_foldl)

text \<open>
  C7. However a byte sequence is cut into chunks, writing the chunks in order to the
  streaming accumulator, started at 0xFFFF, leaves the value that the one-shot
  \<open>calculateCRC\<close> computes for the whole sequence, and that value is the one the
  specification's bit-serial recurrence defines.
\<close>

theorem streaming_crc_equals_one_shot:
  "csum (feed Sum chunks) = calculateCRC (concat chunks) \<and>
   calculateCRC (concat chunks) = crc_spec (concat chunks) \<and>
   Sum32 (feed Sum chunks) = ucast (crc_spec (concat chunks))"
  by (simp add: feed_foldl calculateCRC_loop_foldl calculateCRC_def crc_spec_def Sum_def
      CCITT_def Sum32_def)

section \<open>Reassembler: proofs\<close>

lemma length_Word: "length Word = 4"
  by (simp add: Word_def)

lemma Index_Some_take:
  "Index s sep = Some i \<Longrightarrow> take (length sep) (drop i s) = sep"
proof (induction s arbitrary: i)
  case Nil
  then show ?case by (simp split: if_splits)
next
  case (Cons x s)
  show ?case
  proof (cases "take (length sep) (x # s) = sep")
    case True
    with Cons.prems show ?thesis by simp
  next
    case False
    with Cons.prems obtain j where j: "Index s sep = Some j" "i = Suc j" by auto
    from Cons.IH [OF j(1)] j(2) show ?thesis by simp
  qed
qed

lemma Index_Word_le:
  assumes "Index s Word = Some i"
  shows "i + 4 \<le> length s"
proof -
  from assms have "take (length Word) (drop i s) = Word" by (rule Index_Some_take)
  then have "length (take (length Word) (drop i s)) = length Word" by simp
  then show ?thesis by (simp add: Word_def)
qed

lemma take4_Word: "take 4 xs = Word \<Longrightarrow> \<exists>ys. xs = 0xf8 # 0x2e # 0x35 # 0x53 # ys"
  unfolding Word_def by (metis append_take_drop_id append_Cons append_Nil)

text \<open>The sync word does not overlap itself: its first octet occurs in it once.\<close>

lemma Word_no_overlap:
  assumes "take 4 xs = Word" and "take 4 (drop z xs) = Word" and "0 < z"
  shows "4 \<le> z"
proof (rule ccontr)
  assume "\<not> 4 \<le> z"
  with \<open>0 < z\<close> have z: "z = 1 \<or> z = 2 \<or> z = 3" by arith
  from assms(1) obtain ys where xs: "xs = 0xf8 # 0x2e # 0x35 # 0x53 # ys"
    using take4_Word by blast
  from z assms(2) show False
    by (elim disjE) (simp_all add: xs Word_def)
qed

lemma search_offset_pos: "0 < search_offset xs"
  by (simp add: search_offset_def Let_def length_Word)

lemma search_offset_le:
  "ix + 4 \<le> length (drop (search_offset xs) xs) \<Longrightarrow> ix + search_offset xs + 4 \<le> length xs"
  by (simp add: search_offset_def Let_def length_Word split: if_splits)

lemma copyHRDL_inner:
  assumes "copyHRDL r xs bs = (n, bs', r')"
  shows "inner r' = inner r \<and> skip r' = skip r \<and> length bs' = length bs"
proof (cases "length xs < 8 \<or> take (length Word) xs \<noteq> Word")
  case True
  with assms show ?thesis by (simp add: copyHRDL_def)
next
  case False
  show ?thesis
  proof (cases "Index (drop (search_offset xs) xs) Word")
    case None
    with False assms show ?thesis by (simp add: copyHRDL_def Let_def)
  next
    case (Some ix)
    with False assms show ?thesis
      by (auto simp: copyHRDL_def Let_def copy_def split: prod.splits)
  qed
qed

lemma copyHRDL_found:
  assumes "8 \<le> length xs" and "take 4 xs = Word"
    and "Index (drop (search_offset xs) xs) Word = Some ix"
  shows "copyHRDL r xs bs =
     (fst (copy bs (take (min (unat (LittleEndian_Uint32 (drop 4 xs)) + 12)
                              (ix + search_offset xs)) xs)),
      snd (copy bs (take (min (unat (LittleEndian_Uint32 (drop 4 xs)) + 12)
                              (ix + search_offset xs)) xs)),
      r\<lparr>rest := rest r @ drop (ix + search_offset xs) xs\<rparr>)"
proof -
  have m: "(if a > b then b else a) = min a b" for a b :: nat by (simp add: min_def)
  from assms show ?thesis
    unfolding copyHRDL_def Let_def m length_Word
    by (simp add: case_prod_beta)
qed

lemma copyHRDL_positive:
  assumes "copyHRDL r xs bs = (n, bs', r')" and "0 < n"
  shows "8 \<le> length xs \<and> take 4 xs = Word
         \<and> (\<exists>ix. Index (drop (search_offset xs) xs) Word = Some ix)"
  using assms
  by (auto simp: copyHRDL_def Let_def length_Word split: if_splits option.splits)

lemma copyHRDL_emit:
  assumes c: "copyHRDL r xs bs = (n, bs', r')" and n: "0 < n" and b: "4 \<le> length bs"
  shows "4 \<le> n \<and> take 4 bs' = Word"
proof -
  from copyHRDL_positive [OF c n] obtain ix where l: "8 \<le> length xs" and w: "take 4 xs = Word"
    and ix: "Index (drop (search_offset xs) xs) Word = Some ix" by blast
  define z where "z = ix + search_offset xs"
  have o: "0 < search_offset xs" by (rule search_offset_pos)
  from Index_Some_take [OF ix] have "take 4 (drop z xs) = Word"
    by (simp add: z_def length_Word add.commute)
  with w o have z4: "4 \<le> z" using Word_no_overlap [of xs z] by (simp add: z_def)
  from search_offset_le [OF Index_Word_le [OF ix]] have zl: "z + 4 \<le> length xs"
    by (simp add: z_def)
  define s where "s = min (unat (LittleEndian_Uint32 (drop 4 xs)) + 12) z"
  have s4: "4 \<le> s" using z4 by (simp add: s_def)
  have sl: "s \<le> length xs" using zl by (simp add: s_def)
  from c copyHRDL_found [OF l w ix, of r bs]
  have eq: "(n, bs', r') = (fst (copy bs (take s xs)), snd (copy bs (take s xs)),
      r\<lparr>rest := rest r @ drop z xs\<rparr>)"
    by (simp only: z_def s_def)
  then have "n = fst (copy bs (take s xs))" and "bs' = snd (copy bs (take s xs))"
    by (simp_all only: prod.inject)
  with sl have n: "n = min (length bs) s"
    and bs': "bs' = take (length bs) (take s xs) @ drop s bs"
    by (simp_all only: copy_def fst_conv snd_conv length_take min_absorb2)
  from n s4 b have n4: "4 \<le> n" by simp
  from bs' s4 sl b have "take 4 bs' = take 4 xs" by (simp add: min_def)
  with n4 w show ?thesis by simp
qed

lemma Read_emit_sync:
  "Read_emit r xs bs = Inr (n, bs', r') \<Longrightarrow> 4 \<le> length bs
     \<Longrightarrow> 4 \<le> n \<and> take 4 bs' = Word"
proof (induction r xs bs rule: Read_emit.induct)
  case (1 r xs bs)
  obtain m bs1 r1 where c: "copyHRDL r xs bs = (m, bs1, r1)"
    by (cases "copyHRDL r xs bs") auto
  show ?case
  proof (cases "0 < m")
    case True
    with c "1.prems"(1) have "n = m" "bs' = bs1"
      by (simp_all add: Read_emit.simps [of r xs bs])
    with copyHRDL_emit [OF c True "1.prems"(2)] show ?thesis by simp
  next
    case False
    with c "1.prems"(1) obtain vs r2 where rc: "readCadu r1 = Inr (vs, r2)"
      and re: "Read_emit r2 (unstuff_window (xs @ vs)) bs1 = Inr (n, bs', r')"
      by (auto simp: Read_emit.simps [of r xs bs] split: sum.splits)
    from copyHRDL_inner [OF c] "1.prems"(2) have "4 \<le> length bs1" by simp
    with "1.IH" [OF c [symmetric] refl False rc refl re] show ?thesis by simp
  qed
qed

lemma Read_sync_word:
  assumes rd: "Read r bs = Inr (n, bs', r')" and b: "4 \<le> length bs"
  shows "4 \<le> n \<and> take 4 bs' = Word"
proof -
  obtain m bs1 r1 where c: "copyHRDL (r\<lparr>rest := []\<rparr>) (rest r) bs = (m, bs1, r1)"
    by (cases "copyHRDL (r\<lparr>rest := []\<rparr>) (rest r) bs") auto
  from rd have nb: "\<not> length bs < length (rest r)"
    by (auto simp: Read_def Let_def split: if_splits)
  show ?thesis
  proof (cases "0 < m")
    case True
    with c rd nb have "n = m" "bs' = bs1" by (simp_all add: Read_def Let_def)
    with copyHRDL_emit [OF c True b] show ?thesis by simp
  next
    case False
    with c rd nb obtain xs' r2 where "Read_emit r2 xs' bs1 = Inr (n, bs', r')"
      by (auto simp: Read_def Let_def split: sum.splits)
    moreover from copyHRDL_inner [OF c] b have "4 \<le> length bs1" by simp
    ultimately show ?thesis by (rule Read_emit_sync)
  qed
qed

subsection \<open>Evaluating the reader on sample streams\<close>

lemma Replace_zeros: "Replace (replicate n 0) [0xf8, 0x2e, 0x35, 0xaa] new = replicate n 0"
  by (induction n) simp_all

lemma Index_zeros: "Index (replicate n 0) [0xf8, 0x2e, 0x35, 0x53] = None"
  by (induction n) simp_all

lemmas cadu_lengths =
  caduPacketLen_def caduCheckLen_def caduHeaderLen_def caduBodyLen_def defaultOffset_def

lemma Read_twin_sync:
  "Read (NewReader stream_twin_sync False) reassemble_buffer =
     Inr (4, Word @ replicate 8388604 0,
          \<lparr>inner = [], rest = Word @ replicate 1000 0, skip = 0\<rparr>)"
proof -
  have rc: "readCadu \<lparr>inner = stream_twin_sync, rest = [], skip = 0\<rparr> =
      Inr (Word @ Word @ replicate 1000 0, \<lparr>inner = [], rest = [], skip = 0\<rparr>)"
    by (simp add: readCadu_def ReadFull_def stream_twin_sync_def sample_header_def Word_def
        cadu_lengths)
  have sy: "Read_sync \<lparr>inner = stream_twin_sync, rest = [], skip = 0\<rparr> [] =
      Inr (Word @ Word @ replicate 1000 0, \<lparr>inner = [], rest = [], skip = 0\<rparr>)"
    by (subst Read_sync.simps) (simp add: rc, simp add: Word_def Stuff_def Replace_zeros)
  have em: "Read_emit \<lparr>inner = [], rest = [], skip = 0\<rparr> (Word @ Word @ replicate 1000 0)
        reassemble_buffer =
      Inr (4, Word @ replicate 8388604 0,
          \<lparr>inner = [], rest = Word @ replicate 1000 0, skip = 0\<rparr>)"
    by (subst Read_emit.simps)
       (simp add: copyHRDL_def search_offset_def cadu_lengths Word_def Let_def copy_def
          reassemble_buffer_def)
  from em show ?thesis
    by (simp add: Read_def Let_def NewReader_def copyHRDL_def sy)
qed

lemma Read_short_packet:
  "Read (NewReader stream_short_packet False) reassemble_buffer =
     Inr (16, Word @ [4, 0, 0, 0] @ [0, 0, 0, 0, 0, 0, 0, 0] @ replicate 8388592 0,
          \<lparr>inner = [], rest = Word @ replicate 988 0, skip = 0\<rparr>)"
proof -
  let ?body = "Word @ [4, 0, 0, 0] @ [0, 0, 0, 0, 0, 0, 0, 0] @ Word @ replicate 988 0"
  have rc: "readCadu \<lparr>inner = stream_short_packet, rest = [], skip = 0\<rparr> =
      Inr (?body, \<lparr>inner = [], rest = [], skip = 0\<rparr>)"
    by (simp add: readCadu_def ReadFull_def stream_short_packet_def sample_header_def Word_def
        cadu_lengths)
  have sy: "Read_sync \<lparr>inner = stream_short_packet, rest = [], skip = 0\<rparr> [] =
      Inr (?body, \<lparr>inner = [], rest = [], skip = 0\<rparr>)"
    by (subst Read_sync.simps)
       (simp add: rc, simp add: Word_def Stuff_def Replace_zeros)
  have em: "Read_emit \<lparr>inner = [], rest = [], skip = 0\<rparr> ?body reassemble_buffer =
      Inr (16, Word @ [4, 0, 0, 0] @ [0, 0, 0, 0, 0, 0, 0, 0] @ replicate 8388592 0,
          \<lparr>inner = [], rest = Word @ replicate 988 0, skip = 0\<rparr>)"
    by (subst Read_emit.simps)
       (simp add: copyHRDL_def search_offset_def cadu_lengths Word_def Let_def copy_def
          reassemble_buffer_def LittleEndian_Uint32_def Index_zeros)
  from em show ?thesis
    by (simp add: Read_def Let_def NewReader_def copyHRDL_def sy)
qed

subsection \<open>Emission invariant\<close>

text \<open>
  C3, as the code has it. Every slice that \<open>Read\<close> emits into a buffer of at least four
  octets begins with the HRDL sync word F8 2E 35 53 and has length at least 4.
\<close>

theorem Read_emits_sync_word:
  assumes "Read r bs = Inr (n, bs', r')" and "4 \<le> length bs"
  shows "take 4 (take n bs') = Word \<and> 4 \<le> length (take n bs')"
proof -
  from Read_sync_word [OF assms] have n: "4 \<le> n" and w: "take 4 bs' = Word" by simp_all
  from n w have t: "take 4 (take n bs') = Word" by (simp add: min_absorb1)
  have "length (take 4 (take n bs')) \<le> length (take n bs')"
    by (simp only: length_take min.cobounded1)
  with t have "4 \<le> length (take n bs')" by (simp only: length_Word)
  with t show ?thesis by simp
qed

theorem Read_emits_sync_word_witness:
  "take 4 (take 16 (Word @ [4, 0, 0, 0] @ [0, 0, 0, 0, 0, 0, 0, 0] @ replicate 8388592 0)) = Word
   \<and> 4 \<le> length (take 16 (Word @ [4, 0, 0, 0] @ [0, 0, 0, 0, 0, 0, 0, 0] @ replicate 8388592 (0 :: byte)))"
proof -
  have "4 \<le> length reassemble_buffer" by (simp add: reassemble_buffer_def)
  from Read_emits_sync_word [OF Read_short_packet this] show ?thesis .
qed

text \<open>
  C3, as stated, fails: on a CADU whose body starts with two sync words back to back,
  \<open>Read\<close> emits a slice of four octets, the first sync word alone; the search for the
  next sync word starts at offset 4.
\<close>

theorem Read_short_slice_counterexample:
  "Read (NewReader stream_twin_sync False) reassemble_buffer =
     Inr (4, Word @ replicate 8388604 0,
          \<lparr>inner = [], rest = Word @ replicate 1000 0, skip = 0\<rparr>)
   \<and> length (take 4 (Word @ replicate 8388604 (0 :: byte))) < 8"
  using Read_twin_sync by (simp add: length_Word)

subsection \<open>Length-assisted emit\<close>

lemma copyHRDL_sample_gap: "copyHRDL \<lparr>inner = [], rest = [], skip = 0\<rparr> sample_gap_buffer (replicate 16 0)
   = (12,  Word @ [0, 0, 0, 0] @ [1, 2, 3, 4] @ replicate 4 0, \<lparr>inner = [], rest = Word, skip = 0\<rparr>)"
  by (simp add: copyHRDL_def sample_gap_buffer_def search_offset_def cadu_lengths Word_def Let_def copy_def LittleEndian_Uint32_def)


text \<open>
  C10. When the buffer \<open>xs\<close> begins with the sync word and the declared length
  \<open>s = size + 12\<close> is smaller than the distance \<open>z\<close> to the next sync word, \<open>copyHRDL\<close>
  emits exactly the first \<open>s\<close> octets (the caller's buffer has room for them) and appends
  exactly the suffix from \<open>z\<close> to \<open>rest\<close>, which \<open>Read\<close> has emptied before the call, so
  that the retained buffer is that suffix; the octets at offsets \<open>s\<close> to \<open>z\<close>, of which
  there is at least one, lie between the two and are in neither.
\<close>

theorem copyHRDL_declared_length:
  assumes "8 \<le> length xs" and "take 4 xs = Word"
    and "Index (drop (search_offset xs) xs) Word = Some ix"
    and "z = ix + search_offset xs"
    and "s = unat (LittleEndian_Uint32 (drop 4 xs)) + 12"
    and "s < z" and "s \<le> length bs"
    and "copyHRDL r xs bs = (n, bs', r')"
  shows "n = s \<and> take n bs' = take s xs
         \<and> rest r' = rest r @ drop z xs
         \<and> xs = take n bs' @ take (z - s) (drop s xs) @ drop z xs
         \<and> 0 < length (take (z - s) (drop s xs))"
proof -
  from search_offset_le [OF Index_Word_le [OF assms(3)]] assms(4)
  have zl: "z + 4 \<le> length xs" by simp
  from assms(6) have m: "min s z = s" by simp
  from assms(8) copyHRDL_found [OF assms(1-3), of r bs]
  have eq: "(n, bs', r') = (fst (copy bs (take s xs)), snd (copy bs (take s xs)),
      r\<lparr>rest := rest r @ drop z xs\<rparr>)"
    by (simp only: assms(4) [symmetric] assms(5) [symmetric] m)
  then have "n = fst (copy bs (take s xs))" and "bs' = snd (copy bs (take s xs))"
    and r': "r' = r\<lparr>rest := rest r @ drop z xs\<rparr>"
    by (simp_all only: prod.inject)
  with zl assms(6,7) have n: "n = s" and bs': "bs' = take s xs @ drop s bs"
    by (simp_all add: copy_def min_def)
  from bs' n zl assms(6) have t: "take n bs' = take s xs" by simp
  from r' have rr: "rest r' = rest r @ drop z xs" by simp
  have "xs = take s xs @ drop s xs" by simp
  also have "drop s xs = take (z - s) (drop s xs) @ drop (z - s) (drop s xs)"
    by (rule append_take_drop_id [symmetric])
  also have "drop (z - s) (drop s xs) = drop z xs" using assms(6) by simp
  finally have d: "xs = take s xs @ take (z - s) (drop s xs) @ drop z xs" .
  from zl assms(6) have "0 < length (take (z - s) (drop s xs))" by simp
  with n t rr d show ?thesis by simp
qed

theorem copyHRDL_declared_length_witness:
  "(12 :: nat) = 12
   \<and> take 12 (Word @ [0, 0, 0, 0] @ [1, 2, 3, 4] @ replicate 4 0) = take 12 sample_gap_buffer
   \<and> rest \<lparr>inner = [], rest = Word, skip = 0\<rparr>
       = rest \<lparr>inner = [], rest = [], skip = 0\<rparr> @ drop 14 sample_gap_buffer
   \<and> sample_gap_buffer = take 12 (Word @ [0, 0, 0, 0] @ [1, 2, 3, 4] @ replicate 4 0)
         @ take (14 - 12) (drop 12 sample_gap_buffer) @ drop 14 sample_gap_buffer
   \<and> 0 < length (take (14 - 12) (drop 12 sample_gap_buffer))"
proof -
  have i: "Index (drop (search_offset sample_gap_buffer) sample_gap_buffer) Word = Some 10"
    by (simp add: sample_gap_buffer_def search_offset_def cadu_lengths Word_def Let_def)
  have z: "14 = 10 + search_offset sample_gap_buffer"
    by (simp add: sample_gap_buffer_def search_offset_def cadu_lengths Word_def Let_def)
  have s: "12 = unat (LittleEndian_Uint32 (drop 4 sample_gap_buffer)) + 12"
    by (simp add: sample_gap_buffer_def Word_def LittleEndian_Uint32_def)
  have l: "8 \<le> length sample_gap_buffer" and t: "take 4 sample_gap_buffer = Word"
    by (simp_all add: sample_gap_buffer_def Word_def)
  have lt: "(12 :: nat) < 14" and b: "12 \<le> length (replicate 16 (0 :: byte))"
    by simp_all
  show ?thesis
    by (rule copyHRDL_declared_length [OF l t i z s lt b copyHRDL_sample_gap])
qed

section \<open>CADU decoder: proofs\<close>

lemma Write_csum: "csum (fst (Write acc chunk)) = foldl crc_spec_octet (csum acc) chunk"
  by (simp add: Write_def Write_loop_foldl)

lemma covered_split:
  assumes "1018 \<le> length r1"
  shows "take 2 r1 @ take 4 (drop 2 r1) @ take 2 (drop 6 r1) @ take 2 (drop 8 r1)
           @ take 1008 (drop 10 r1) = take 1018 r1"
proof -
  have "take 1018 r1 = take (2 + (4 + (2 + (2 + 1008)))) r1" by simp
  also have "\<dots> = take 2 r1 @ take 4 (drop 2 r1) @ take 2 (drop 6 r1) @ take 2 (drop 8 r1)
           @ take 1008 (drop 10 r1)"
    by (simp only: take_add drop_drop) simp
  finally show ?thesis by simp
qed

lemma ucast_Sum32: "(ucast (Sum32 a) :: 16 word) = csum a"
  by (simp add: Sum32_def ucast_up_ucast_id is_up)

text \<open>What \<open>decodeCadu\<close> returns when the source holds 1024 octets or more.\<close>

lemma decodeCadu_frame:
  assumes "1024 \<le> length r"
  shows "decodeCadu r =
     Inr (\<lparr>header =
             \<lparr>Word_h = BigEndian_Uint32 (take 4 r),
              Version = ucast (drop_bit 14 (BigEndian_Uint16 (take 2 (drop 4 r)) AND 0xC000)),
              Space = ucast (drop_bit 6 (BigEndian_Uint16 (take 2 (drop 4 r)) AND 0x3FC0)),
              Channel = ucast (BigEndian_Uint16 (take 2 (drop 4 r)) AND 0x003F),
              Sequence = drop_bit 8 (BigEndian_Uint32 (take 4 (drop 6 r))),
              Replay = (drop_bit 7 (BigEndian_Uint32 (take 4 (drop 6 r))) = 1),
              Control_h = BigEndian_Uint16 (take 2 (drop 10 r)),
              Data = BigEndian_Uint16 (take 2 (drop 12 r))\<rparr>,
           Payload = take 1008 (drop 14 r),
           Control = BigEndian_Uint16 (take 2 (drop 1022 r)),
           Error = (if calculateCRC (take 1018 (drop 4 r))
                        \<noteq> BigEndian_Uint16 (take 2 (drop 1022 r))
                    then Some \<lparr>Want = BigEndian_Uint16 (take 2 (drop 1022 r)),
                               Got = calculateCRC (take 1018 (drop 4 r))\<rparr>
                    else None)\<rparr>,
          drop 1024 r)"
proof -
  define a2 where "a2 = fst (Write Sum (take 2 (drop 4 r)))"
  define a3 where "a3 = fst (Write a2 (take 4 (drop 6 r)))"
  define a4 where "a4 = fst (Write a3 (take 2 (drop 10 r)))"
  define a5 where "a5 = fst (Write a4 (take 2 (drop 12 r)))"
  define a6 where "a6 = fst (Write a5 (take 1008 (drop 14 r)))"
  from assms have rf: "ReadFull 4 r = (Some (take 4 r), drop 4 r)"
    by (simp add: ReadFull_def)
  from assms have t2: "tee_Read 2 (drop 4 r, Sum) = (Some (take 2 (drop 4 r)), (drop 6 r, a2))"
    by (simp add: tee_Read_def a2_def)
  from assms have t3: "tee_Read 4 (drop 6 r, a2) = (Some (take 4 (drop 6 r)), (drop 10 r, a3))"
    by (simp add: tee_Read_def a3_def)
  from assms have t4: "tee_Read 2 (drop 10 r, a3) = (Some (take 2 (drop 10 r)), (drop 12 r, a4))"
    by (simp add: tee_Read_def a4_def)
  from assms have t5: "tee_Read 2 (drop 12 r, a4) = (Some (take 2 (drop 12 r)), (drop 14 r, a5))"
    by (simp add: tee_Read_def a5_def)
  from assms have t6: "tee_Read caduBodyLen (drop 14 r, a5)
      = (Some (take 1008 (drop 14 r)), (drop 1022 r, a6))"
    by (simp add: tee_Read_def a6_def caduBodyLen_def caduPacketLen_def caduHeaderLen_def
        caduCheckLen_def)
  from assms have rf2: "ReadFull 2 (drop 1022 r) = (Some (take 2 (drop 1022 r)), drop 1024 r)"
    by (simp add: ReadFull_def)
  have "csum a6 = foldl crc_spec_octet CCITT
      (take 2 (drop 4 r) @ take 4 (drop 6 r) @ take 2 (drop 10 r) @ take 2 (drop 12 r)
         @ take 1008 (drop 14 r))"
    by (simp add: a6_def a5_def a4_def a3_def a2_def Write_csum Sum_def)
  also have "take 2 (drop 4 r) @ take 4 (drop 6 r) @ take 2 (drop 10 r) @ take 2 (drop 12 r)
         @ take 1008 (drop 14 r) = take 1018 (drop 4 r)"
    using covered_split [of "drop 4 r"] assms by simp
  finally have crc: "csum a6 = calculateCRC (take 1018 (drop 4 r))"
    by (simp add: calculateCRC_def calculateCRC_loop_foldl)
  show ?thesis
    unfolding decodeCadu_def
    by (simp add: rf t2 t3 t4 t5 t6 rf2 Let_def ucast_Sum32 crc)
qed

subsection \<open>The CRC of the sample frames\<close>

lemma calculateCRC_foldl: "calculateCRC bs = foldl crc_spec_octet CCITT bs"
  by (simp add: calculateCRC_def calculateCRC_loop_foldl)

lemma crc_octet_zero: "crc_spec_octet 0 0 = 0"
proof -
  have "crc_bits 0 0 = 0" by code_simp
  with crc_bits_octet [of 0 0] show ?thesis by simp
qed

lemma crc_zero_run: "foldl crc_spec_octet 0 (replicate n 0) = 0"
  by (induction n) (simp_all add: crc_octet_zero)

lemma crc_covered_head:
  "foldl crc_spec_octet CCITT [0x45, 0xc7, 0, 0, 0, 0, 0xfd, 0xc3, 0x3f, 0xff, 0xd2, 0xa4] = 0"
proof -
  have "calculateCRC [0x45, 0xc7, 0, 0, 0, 0, 0xfd, 0xc3, 0x3f, 0xff, 0xd2, 0xa4] = 0"
    by code_simp
  then show ?thesis unfolding calculateCRC_foldl .
qed

lemma crc_frame_head:
  "foldl crc_spec_octet CCITT
     [0x1a, 0xcf, 0xfc, 0x1d, 0x45, 0xc7, 0, 0, 0, 0, 0xfd, 0xc3, 0x3f, 0xff, 0xd2, 0xa4] \<noteq> 0"
proof -
  have "calculateCRC
     [0x1a, 0xcf, 0xfc, 0x1d, 0x45, 0xc7, 0, 0, 0, 0, 0xfd, 0xc3, 0x3f, 0xff, 0xd2, 0xa4] \<noteq> 0"
    by code_simp
  then show ?thesis unfolding calculateCRC_foldl .
qed

lemma crc_frame_valid: "calculateCRC (take 1018 (drop 4 frame_valid_crc)) = 0"
proof -
  have "take 1018 (drop 4 frame_valid_crc)
      = [0x45, 0xc7, 0, 0, 0, 0, 0xfd, 0xc3, 0x3f, 0xff, 0xd2, 0xa4] @ replicate 1006 0"
    by (simp add: frame_valid_crc_def sample_header_def)
  then show ?thesis
    by (simp only: calculateCRC_foldl foldl_append crc_covered_head crc_zero_run)
qed

lemma crc_frame_wrong: "calculateCRC (take 1018 (drop 4 frame_wrong_crc)) = 0"
proof -
  have "take 1018 (drop 4 frame_wrong_crc)
      = [0x45, 0xc7, 0, 0, 0, 0, 0xfd, 0xc3, 0x3f, 0xff, 0xd2, 0xa4] @ replicate 1006 0"
    by (simp add: frame_wrong_crc_def sample_header_def)
  then show ?thesis
    by (simp only: calculateCRC_foldl foldl_append crc_covered_head crc_zero_run)
qed

text \<open>A CRC state other than zero stays other than zero along a run of zero octets.\<close>

lemma crc_spec_shift_zero:
  assumes "crc_spec_shift s = 0"
  shows "s = 0"
proof (cases "bit s 15")
  case True
  with assms have "push_bit 1 s XOR 0x1021 = (0 :: 16 word)" by (simp add: crc_spec_shift_def)
  then have "even (push_bit 1 s XOR (0x1021 :: 16 word))" by (simp only: even_zero)
  then have "even (push_bit 1 s) = even (0x1021 :: 16 word)" by (simp only: even_xor_iff)
  then show ?thesis by simp
next
  case False
  with assms have z: "push_bit 1 s = 0" by (simp add: crc_spec_shift_def)
  show ?thesis
  proof (rule bit_word_eqI)
    fix n assume n: "n < LENGTH(16)"
    show "bit s n = bit (0 :: 16 word) n"
    proof (cases "n = 15")
      case True
      with False show ?thesis by simp
    next
      case False
      with n have "Suc n < 16" by simp
      then have "bit (push_bit 1 s) (Suc n) = bit s n"
        using bit_push_bit_iff [of 1 s "Suc n"] by (simp only: possible_bit_word) simp
      with z show ?thesis by (simp only: bit_0_eq) simp
    qed
  qed
qed

lemma crc_funpow_shift_zero: "(crc_spec_shift ^^ n) s = 0 \<Longrightarrow> s = 0"
  by (induction n) (auto dest: crc_spec_shift_zero)

lemma crc_spec_octet_zero: "crc_spec_octet s 0 = 0 \<Longrightarrow> s = 0"
  by (auto simp: crc_spec_octet_def dest: crc_funpow_shift_zero)

lemma crc_run_zero: "foldl crc_spec_octet s (replicate n 0) = 0 \<Longrightarrow> s = 0"
  by (induction n arbitrary: s) (auto dest: crc_spec_octet_zero)

lemma crc_first_1022: "calculateCRC (take 1022 frame_valid_crc) \<noteq> 0"
proof
  have "take 1022 frame_valid_crc
      = [0x1a, 0xcf, 0xfc, 0x1d, 0x45, 0xc7, 0, 0, 0, 0, 0xfd, 0xc3, 0x3f, 0xff, 0xd2, 0xa4]
          @ replicate 1006 0"
    by (simp add: frame_valid_crc_def sample_header_def)
  moreover assume "calculateCRC (take 1022 frame_valid_crc) = 0"
  ultimately have "foldl crc_spec_octet (foldl crc_spec_octet CCITT
      [0x1a, 0xcf, 0xfc, 0x1d, 0x45, 0xc7, 0, 0, 0, 0, 0xfd, 0xc3, 0x3f, 0xff, 0xd2, 0xa4])
      (replicate 1006 0) = 0"
    by (simp only: calculateCRC_foldl foldl_append)
  then show False using crc_frame_head crc_run_zero by blast
qed

subsection \<open>Checksum mismatch\<close>

text \<open>
  C5, as the code has it. Whenever 1024 octets are available, \<open>decodeCadu\<close> returns a CADU
  and never an error. The CRC is accumulated over the 1018 octets between the sync word
  and the trailing CRC; if it differs from the two octets the frame carries, the CADU has
  a \<open>ChecksumError\<close> with the carried value as \<open>Want\<close> and the computed one as \<open>Got\<close>,
  otherwise its error is \<open>None\<close>. Header and payload are decoded from the first 1022
  octets and are the same in both cases; exactly 1024 octets are consumed.
\<close>

theorem decodeCadu_checksum_not_fatal:
  assumes "1024 \<le> length r"
  shows "decodeCadu r =
     Inr (\<lparr>header =
             \<lparr>Word_h = BigEndian_Uint32 (take 4 r),
              Version = ucast (drop_bit 14 (BigEndian_Uint16 (take 2 (drop 4 r)) AND 0xC000)),
              Space = ucast (drop_bit 6 (BigEndian_Uint16 (take 2 (drop 4 r)) AND 0x3FC0)),
              Channel = ucast (BigEndian_Uint16 (take 2 (drop 4 r)) AND 0x003F),
              Sequence = drop_bit 8 (BigEndian_Uint32 (take 4 (drop 6 r))),
              Replay = (drop_bit 7 (BigEndian_Uint32 (take 4 (drop 6 r))) = 1),
              Control_h = BigEndian_Uint16 (take 2 (drop 10 r)),
              Data = BigEndian_Uint16 (take 2 (drop 12 r))\<rparr>,
           Payload = take 1008 (drop 14 r),
           Control = BigEndian_Uint16 (take 2 (drop 1022 r)),
           Error = (if calculateCRC (take 1018 (drop 4 r))
                        \<noteq> BigEndian_Uint16 (take 2 (drop 1022 r))
                    then Some \<lparr>Want = BigEndian_Uint16 (take 2 (drop 1022 r)),
                               Got = calculateCRC (take 1018 (drop 4 r))\<rparr>
                    else None)\<rparr>,
          drop 1024 r)"
  using assms by (rule decodeCadu_frame)

theorem decodeCadu_checksum_not_fatal_witness:
  "map_sum id (\<lambda>p. (Error (fst p), snd p)) (decodeCadu frame_valid_crc) = Inr (None, [])
   \<and> map_sum id (\<lambda>p. (Error (fst p), snd p)) (decodeCadu frame_wrong_crc)
       = Inr (Some \<lparr>Want = 1, Got = 0\<rparr>, [])"
proof -
  have l: "1024 \<le> length frame_valid_crc" "1024 \<le> length frame_wrong_crc"
    by (simp_all add: frame_valid_crc_def frame_wrong_crc_def sample_header_def)
  have c: "BigEndian_Uint16 (take 2 (drop 1022 frame_valid_crc)) = 0"
    "BigEndian_Uint16 (take 2 (drop 1022 frame_wrong_crc)) = 1"
    by (simp_all add: frame_valid_crc_def frame_wrong_crc_def sample_header_def
        BigEndian_Uint16_def)
  have d: "drop 1024 frame_valid_crc = []" "drop 1024 frame_wrong_crc = []"
    by (simp_all add: frame_valid_crc_def frame_wrong_crc_def sample_header_def)
  show ?thesis
    using decodeCadu_checksum_not_fatal [OF l(1)] decodeCadu_checksum_not_fatal [OF l(2)]
    by (simp add: c d crc_frame_valid crc_frame_wrong)
qed

text \<open>
  C5, as stated, fails: the CRC is not accumulated over 1022 octets. In the first sample
  frame the CRC over the 1022 octets that precede the trailing CRC differs from the value the
  frame carries, and yet the CADU is returned without an error, since the CRC over the
  1018 octets after the sync word matches.
\<close>

theorem decodeCadu_crc_1022_counterexample:
  "calculateCRC (take 1022 frame_valid_crc) \<noteq> BigEndian_Uint16 (take 2 (drop 1022 frame_valid_crc))
   \<and> map_sum id (Error \<circ> fst) (decodeCadu frame_valid_crc) = Inr None"
proof -
  have l: "1024 \<le> length frame_valid_crc"
    by (simp add: frame_valid_crc_def sample_header_def)
  have c: "BigEndian_Uint16 (take 2 (drop 1022 frame_valid_crc)) = 0"
    by (simp add: frame_valid_crc_def sample_header_def BigEndian_Uint16_def)
  show ?thesis
    using decodeCadu_frame [OF l] crc_first_1022
    by (simp add: c crc_frame_valid)
qed

subsection \<open>Sequence and replay flag\<close>

text \<open>
  The test \<open>(seq >> 7) == 1\<close> of the decoder holds when bit 7 is set and the 24 bits of
  the sequence above it are all zero.
\<close>

lemma replay_test_iff:
  "(drop_bit 7 (w :: 32 word) = 1) = (bit w 7 \<and> drop_bit 8 w = 0)"
proof
  assume a: "drop_bit 7 w = 1"
  have b: "bit w (7 + n) = bit (1 :: 32 word) n" for n
  proof -
    have "bit (drop_bit 7 w) n = bit w (7 + n)" by (simp only: bit_drop_bit_eq o_apply)
    with a show ?thesis by (simp only:)
  qed
  from b [of 0] have b7: "bit w 7" by simp
  have "drop_bit 8 w = 0"
  proof (rule bit_word_eqI)
    fix n assume "n < LENGTH(32)"
    have "bit (drop_bit 8 w) n = bit w (8 + n)" by (simp only: bit_drop_bit_eq o_apply)
    also have "8 + n = 7 + Suc n" by simp
    also have "bit w (7 + Suc n) = bit (1 :: 32 word) (Suc n)" by (rule b)
    also have "\<dots> = False" by (simp only: bit_1_iff) simp
    finally show "bit (drop_bit 8 w) n = bit (0 :: 32 word) n" by simp
  qed
  with b7 show "bit w 7 \<and> drop_bit 8 w = 0" by (rule conjI)
next
  assume a: "bit w 7 \<and> drop_bit 8 w = 0"
  show "drop_bit 7 w = 1"
  proof (rule bit_word_eqI)
    fix n assume "n < LENGTH(32)"
    have d: "bit (drop_bit 7 w) n = bit w (7 + n)" by (simp only: bit_drop_bit_eq o_apply)
    show "bit (drop_bit 7 w) n = bit (1 :: 32 word) n"
    proof (cases n)
      case 0
      with a d show ?thesis by simp
    next
      case (Suc m)
      have "bit (drop_bit 8 w) m = bit w (8 + m)" by (simp only: bit_drop_bit_eq o_apply)
      moreover have "8 + m = 7 + Suc m" by simp
      ultimately have "bit w (7 + Suc m) = bit (drop_bit 8 w) m" by (simp only:)
      also from a have "\<dots> = False" by simp
      finally have "\<not> bit w (7 + Suc m)" by simp
      with d Suc have "\<not> bit (drop_bit 7 w) (Suc m)" by simp
      with Suc show ?thesis by (simp add: bit_1_iff)
    qed
  qed
qed

text \<open>
  C6. The frame whose sequence-and-replay word is 00 00 01 80 has sequence 1 and bit 7
  set, and \<open>decodeCadu\<close> returns it with sequence 1 and the replay flag off: the flag is
  the comparison of the whole word shifted right by 7 with 1, so it is on only when the
  sequence is 0.
\<close>

theorem decodeCadu_replay_needs_sequence_zero:
  "map_sum id (\<lambda>p. (Sequence (header (fst p)), Replay (header (fst p))))
     (decodeCadu frame_replay_seq1) = Inr (1, False)
   \<and> bit (BigEndian_Uint32 (take 4 (drop 6 frame_replay_seq1))) 7"
proof -
  have l: "1024 \<le> length frame_replay_seq1" by (simp add: frame_replay_seq1_def)
  have w: "BigEndian_Uint32 (take 4 (drop 6 frame_replay_seq1)) = 0x180"
    by (simp add: frame_replay_seq1_def BigEndian_Uint32_def)
  have b: "bit (0x180 :: 32 word) 7" by (simp add: bit_iff_odd_drop_bit)
  show ?thesis
    using decodeCadu_frame [OF l] by (simp add: w b)
qed

section \<open>Bit-stuffing reversal: proofs\<close>

lemma copy_same_length: "length (snd (copy dst src)) = length dst"
  by (simp add: copy_def)

text \<open>
  The window keeps its length: \<open>copy\<close> writes the unstuffed octets over the window and
  leaves what follows them as it was.
\<close>

lemma unstuff_window_length: "length (unstuff_window xs) = length xs"
  by (simp add: unstuff_window_def Let_def copy_same_length)

lemma Replace_zeros_append:
  "Replace (replicate n 0 @ ys) [0xf8, 0x2e, 0x35, 0xaa] new
     = replicate n 0 @ Replace ys [0xf8, 0x2e, 0x35, 0xaa] new"
  by (induction n) simp_all

lemma Index_zeros_append:
  "Index (replicate n 0 @ ys) [0xf8, 0x2e, 0x35, 0x53]
     = map_option (\<lambda>i. n + i) (Index ys [0xf8, 0x2e, 0x35, 0x53])"
  by (induction n) (simp_all add: option.map_comp comp_def option.map_ident)

lemma copyHRDL_Nil: "copyHRDL r [] bs = (0, bs, r)"
  by (simp add: copyHRDL_def)

lemma readCadu_stuffed1:
  "readCadu \<lparr>inner = stream_stuffed, rest = [], skip = 0\<rparr> =
     Inr (stuffed_body1, \<lparr>inner = stuffed_cadu2 @ stuffed_cadu3, rest = [], skip = 0\<rparr>)"
  by (simp add: readCadu_def ReadFull_def stream_stuffed_def sample_header_def Word_def
      stuffed_body1_def cadu_lengths)

lemma readCadu_stuffed2:
  "readCadu \<lparr>inner = stuffed_cadu2 @ stuffed_cadu3, rest = [], skip = 0\<rparr> =
     Inr (stuffed_body2, \<lparr>inner = stuffed_cadu3, rest = [], skip = 0\<rparr>)"
  by (simp add: readCadu_def ReadFull_def Word_def Stuff_def stuffed_cadu2_def stuffed_body2_def
      cadu_lengths)

lemma readCadu_stuffed3:
  "readCadu \<lparr>inner = stuffed_cadu3, rest = [], skip = 0\<rparr> =
     Inr (stuffed_body3, \<lparr>inner = [], rest = [], skip = 0\<rparr>)"
  by (simp add: readCadu_def ReadFull_def Word_def stuffed_cadu3_def stuffed_body3_def
      cadu_lengths)

lemma Read_sync_stuffed1:
  "Read_sync \<lparr>inner = stream_stuffed, rest = [], skip = 0\<rparr> [] =
     Inr (stuffed_body1, \<lparr>inner = stuffed_cadu2 @ stuffed_cadu3, rest = [], skip = 0\<rparr>)"
proof -
  have i: "Index stuffed_body1 Word = Some 0" by (simp add: stuffed_body1_def Word_def)
  have r: "Replace stuffed_body1 Stuff (take 3 Word) = stuffed_body1"
    by (simp add: stuffed_body1_def Word_def Stuff_def Replace_zeros)
  show ?thesis
    by (subst Read_sync.simps) (simp add: readCadu_stuffed1 i r)
qed

lemma copyHRDL_stuffed_body1: "copyHRDL r stuffed_body1 bs = (0, bs, r)"
  by (simp add: copyHRDL_def stuffed_body1_def search_offset_def cadu_lengths Word_def Let_def
      Index_zeros)

text \<open>
  The second body is appended and the window unstuffed: F8 2E 35 AA has become F8 2E 35,
  and the last octet of the window, 53, is there twice.
\<close>

lemma unstuff_window_stuffed:
  "unstuff_window (stuffed_body1 @ stuffed_body2)
     = stuffed_body1 @ [0xf8, 0x2e, 0x35] @ replicate 1000 0 @ Word @ [0x53]"
  by (simp add: unstuff_window_def Let_def cadu_lengths stuffed_body1_def stuffed_body2_def
      Word_def Stuff_def copy_def
      Replace_zeros_append [of 16, simplified] Replace_zeros_append [of 1000, simplified]
      replicate_add [symmetric])

lemma copyHRDL_stuffed_first:
  "copyHRDL \<lparr>inner = stuffed_cadu3, rest = [], skip = 0\<rparr>
     (stuffed_body1 @ [0xf8, 0x2e, 0x35] @ replicate 1000 0 @ Word @ [0x53]) reassemble_buffer
   = (2011, stuffed_out1, \<lparr>inner = stuffed_cadu3, rest = Word @ [0x53], skip = 0\<rparr>)"
  by (simp add: copyHRDL_def stuffed_body1_def search_offset_def cadu_lengths Word_def Let_def
      Index_zeros_append [of 4, simplified] Index_zeros_append [of 1000, simplified]
      LittleEndian_Uint32_def copy_def reassemble_buffer_def stuffed_out1_def)

lemma Read_emit_stuffed_first:
  "Read_emit \<lparr>inner = stuffed_cadu2 @ stuffed_cadu3, rest = [], skip = 0\<rparr>
     stuffed_body1 reassemble_buffer
   = Inr (2011, stuffed_out1, \<lparr>inner = stuffed_cadu3, rest = Word @ [0x53], skip = 0\<rparr>)"
  apply (subst Read_emit.simps)
  apply (simp only: copyHRDL_stuffed_body1 prod.case readCadu_stuffed2 sum.case
      unstuff_window_stuffed)
  apply (subst Read_emit.simps)
  apply (simp only: copyHRDL_stuffed_first prod.case)
  apply simp
  done

lemma Read_stuffed_first:
  "Read (NewReader stream_stuffed False) reassemble_buffer
     = Inr (2011, stuffed_out1, \<lparr>inner = stuffed_cadu3, rest = Word @ [0x53], skip = 0\<rparr>)"
  using Read_sync_stuffed1 Read_emit_stuffed_first
  by (simp add: Read_def Let_def NewReader_def copyHRDL_Nil)

lemma copyHRDL_stale: "copyHRDL r (Word @ [0x53]) bs = (0, bs, r)"
  by (simp add: copyHRDL_def Word_def)

lemma Read_sync_stuffed2:
  "Read_sync \<lparr>inner = stuffed_cadu3, rest = [], skip = 0\<rparr> (Word @ [0x53]) =
     Inr (Word @ [0x53] @ stuffed_body3, \<lparr>inner = [], rest = [], skip = 0\<rparr>)"
proof -
  have i: "Index ((Word @ [0x53]) @ stuffed_body3) Word = Some 0" by (simp add: Word_def)
  have r: "Replace ((Word @ [0x53]) @ stuffed_body3) Stuff (take 3 Word)
      = Word @ [0x53] @ stuffed_body3"
    by (simp add: stuffed_body3_def Word_def Stuff_def Replace_zeros)
  show ?thesis
    by (subst Read_sync.simps) (simp add: readCadu_stuffed3 i r del: append_assoc)
qed

lemma copyHRDL_stuffed_second:
  "copyHRDL \<lparr>inner = [], rest = [], skip = 0\<rparr> (Word @ [0x53] @ stuffed_body3) stuffed_out1
     = (17, stuffed_out2, \<lparr>inner = [], rest = Word @ replicate 992 0, skip = 0\<rparr>)"
  by (simp add: copyHRDL_def stuffed_body3_def search_offset_def cadu_lengths Word_def Let_def
      LittleEndian_Uint32_def copy_def stuffed_out1_def stuffed_out2_def stuffed_body1_def)

lemma Read_emit_stuffed_second:
  "Read_emit \<lparr>inner = [], rest = [], skip = 0\<rparr> (Word @ [0x53] @ stuffed_body3) stuffed_out1
     = Inr (17, stuffed_out2, \<lparr>inner = [], rest = Word @ replicate 992 0, skip = 0\<rparr>)"
  by (subst Read_emit.simps) (simp only: copyHRDL_stuffed_second prod.case, simp)

lemma Read_stuffed_second:
  "Read \<lparr>inner = stuffed_cadu3, rest = Word @ [0x53], skip = 0\<rparr> stuffed_out1
     = Inr (17, stuffed_out2, \<lparr>inner = [], rest = Word @ replicate 992 0, skip = 0\<rparr>)"
proof -
  have "\<not> length stuffed_out1 < length (Word @ [0x53])"
    by (simp add: stuffed_out1_def stuffed_body1_def Word_def)
  then show ?thesis
    unfolding Read_def Let_def
    by (simp only: reader.simps if_False copyHRDL_stale prod.case Read_sync_stuffed2 sum.case
        Read_emit_stuffed_second) simp
qed

text \<open>
  C4. On the stream of three CADUs in which the payload octets F8 2E 35 of the first
  packet are stuffed to F8 2E 35 AA, the first \<open>Read\<close> emits the first packet unstuffed
  but retains the sync word of the second followed by a stale octet 53; the second \<open>Read\<close>
  then emits 17 octets, F8 2E 35 53 53 04 00 00 00 and eight zeros, where the stream
  holds the 16 octets F8 2E 35 53 04 00 00 00 and eight zeros: the bytes are not
  reproduced.
\<close>

theorem unstuffing_leaves_stale_octet:
  "Read (NewReader stream_stuffed False) reassemble_buffer
     = Inr (2011, stuffed_out1, \<lparr>inner = stuffed_cadu3, rest = Word @ [0x53], skip = 0\<rparr>)
   \<and> Read \<lparr>inner = stuffed_cadu3, rest = Word @ [0x53], skip = 0\<rparr> stuffed_out1
     = Inr (17, stuffed_out2, \<lparr>inner = [], rest = Word @ replicate 992 0, skip = 0\<rparr>)
   \<and> take 17 stuffed_out2 = Word @ [0x53, 4, 0, 0, 0] @ [0, 0, 0, 0, 0, 0, 0, 0]"
  using Read_stuffed_first Read_stuffed_second
  by (simp add: stuffed_out2_def Word_def)

section \<open>Reassembly loop: proofs\<close>

text \<open>
  The first check of the loop body: on a buffer that does not begin with the sync word
  the body returns \<open>ErrSyncword\<close>.
\<close>

lemma reassemble_body_no_sync:
  assumes "4 \<le> length xs" and "take 4 xs \<noteq> Word"
  shows "reassemble_body by st xs n = Inl ErrSyncword"
  using assms by (simp add: reassemble_body_def Let_def length_Word)

text \<open>
  The second check of the loop never fires: it looks for the sync word from offset 0 of
  a slice that was just found to begin with it.
\<close>

lemma Index_short: "length s < length sep \<Longrightarrow> Index s sep = None"
  by (induction s) auto

lemma Index_prefix: "take (length sep) s = sep \<Longrightarrow> Index s sep = Some 0"
  by (cases s) auto

lemma Index_check_idle:
  assumes "take 4 xs = Word"
  shows "(case Index (take n xs) Word of None \<Rightarrow> False | Some i \<Rightarrow> i \<ge> length Word) = False"
proof (cases "4 \<le> n")
  case True
  with assms have "take (length Word) (take n xs) = Word" by (simp add: length_Word min_absorb1)
  then have "Index (take n xs) Word = Some 0" by (rule Index_prefix)
  then show ?thesis by (simp add: length_Word)
next
  case False
  then have "Index (take n xs) Word = None" by (intro Index_short) (simp add: length_Word)
  then show ?thesis by simp
qed

lemma reassemble_body_never_multiple:
  assumes "\<And>vs. by vs \<noteq> Inl ErrMultiple"
  shows "reassemble_body by st xs n \<noteq> Inl ErrMultiple"
proof (cases "length xs < length Word \<or> take (length Word) xs \<noteq> Word")
  case True
  then show ?thesis by (auto simp: reassemble_body_def Let_def)
next
  case False
  then have w: "take 4 xs = Word" by (simp add: length_Word)
  show ?thesis
    using False assms
    by (auto simp: reassemble_body_def Let_def Index_check_idle [OF w]
          split: sum.splits prod.splits if_splits)
qed

subsection \<open>What \<open>Read\<close> hands to the loop\<close>







subsection \<open>The loop never meets a slice without sync word\<close>








subsection \<open>The whole of \<open>reassemble\<close> on a sample stream\<close>

lemma readCadu_empty: "readCadu \<lparr>inner = [], rest = rs, skip = 0\<rparr>
    = Inl (EOF, \<lparr>inner = [], rest = rs, skip = 0\<rparr>)"
  by (simp add: readCadu_def ReadFull_def read_error_def cadu_lengths)

text \<open>
  At the end of the source, with a sync word and zero octets retained, \<open>Read\<close> returns
  \<open>io.EOF\<close>.
\<close>

lemma Read_at_end:
  assumes "k \<le> 1008" and "k + 4 \<le> length bs"
  shows "Read \<lparr>inner = [], rest = Word @ replicate k 0, skip = 0\<rparr> bs
     = Inl (EOF, \<lparr>inner = [], rest = [], skip = 0\<rparr>)"
proof -
  have c: "copyHRDL \<lparr>inner = [], rest = [], skip = 0\<rparr> (Word @ replicate k 0) bs
      = (0, bs, \<lparr>inner = [], rest = [], skip = 0\<rparr>)"
    using assms(1)
    by (simp add: copyHRDL_def search_offset_def cadu_lengths Word_def Let_def Index_zeros)
  have s: "Read_sync \<lparr>inner = [], rest = [], skip = 0\<rparr> (Word @ replicate k 0)
      = Inl (EOF, \<lparr>inner = [], rest = [], skip = 0\<rparr>)"
    by (subst Read_sync.simps) (simp add: readCadu_empty)
  from assms(2) have nb: "\<not> length bs < length (Word @ replicate k 0)"
    by (simp add: length_Word)
  show ?thesis
    unfolding Read_def Let_def
    by (simp only: nb if_False reader.simps c prod.case s sum.case) simp
qed

lemma sum_loop_short_packet: "sum_loop 8 (Word @ [4, 0, 0, 0] @ [0, 0, 0, 0, 0, 0, 0, 0]) 0 = 0"
  by code_simp

lemma reassemble_body_short_packet: "reassemble_body by_channel (Map.empty, Map.empty)
     (Word @ [4, 0, 0, 0] @ [0, 0, 0, 0, 0, 0, 0, 0] @ replicate 8388592 0) 16
   = Inr ([0 \<mapsto> \<lparr>Count = 1, Size = 16, Bad = 0, Bigger = 0, Smaller = 0\<rparr>],
          [0 \<mapsto> \<lparr>Count_c = 1, Size_c = 0, Missing_c = 0, First = 0, Last = 0\<rparr>])"
  using sum_loop_short_packet
  by (simp add: reassemble_body_def Let_def Word_def by_channel_def LittleEndian_Uint32_def)

lemma reassemble_short_packet:
  "reassemble stream_short_packet False by_channel
     = Inr ([0 \<mapsto> \<lparr>Count = 1, Size = 16, Bad = 0, Bigger = 0, Smaller = 0\<rparr>],
            [0 \<mapsto> \<lparr>Count_c = 1, Size_c = 0, Missing_c = 0, First = 0, Last = 0\<rparr>])"
  unfolding reassemble_def
  apply (subst reassemble_loop.simps)
  apply (simp only: Read_short_packet sum.case prod.case reassemble_body_short_packet)
  apply simp
  apply (subst reassemble_loop.simps)
  apply (simp add: Read_at_end length_Word)
  done

subsection \<open>A slice with a sync word inside\<close>

















end
